theory Spec2Isabelle
  imports Main "HOL-Library.Sublist"
begin

section \<open>JavaScript string and array primitives used by setup.ts\<close>

text \<open>
  A JavaScript string is a sequence of code units; it is modelled as a \<^typ>\<open>string\<close>
  (a list of characters). The functions below are the library calls that
  \<^verbatim>\<open>setup.ts\<close> makes on strings and arrays: \<^verbatim>\<open>startsWith\<close>, \<^verbatim>\<open>includes\<close>,
  \<^verbatim>\<open>replace(/ /g, '\\ ')\<close> and \<^verbatim>\<open>join\<close>.
\<close>

definition startsWith :: "string \<Rightarrow> string \<Rightarrow> bool" where
  "startsWith s p \<longleftrightarrow> take (length p) s = p"

text \<open>\<^verbatim>\<open>s.includes(sub)\<close>: \<^verbatim>\<open>sub\<close> occurs in \<^verbatim>\<open>s\<close> at some position.\<close>

fun str_includes :: "string \<Rightarrow> string \<Rightarrow> bool" where
  "str_includes [] sub \<longleftrightarrow> sub = []"
| "str_includes (c # cs) sub \<longleftrightarrow> startsWith (c # cs) sub \<or> str_includes cs sub"

text \<open>
  \<^verbatim>\<open>s.replace(/ /g, '\\ ')\<close>: every space becomes a backslash (character 0x5C)
  followed by a space; all other characters are copied.
\<close>

fun replace_spaces :: "string \<Rightarrow> string" where
  "replace_spaces [] = []"
| "replace_spaces (c # cs) =
     (if c = CHR '' '' then CHR 0x5C # CHR '' '' # replace_spaces cs
      else c # replace_spaces cs)"

text \<open>\<^verbatim>\<open>xs.join(sep)\<close>.\<close>

fun join :: "string \<Rightarrow> string list \<Rightarrow> string" where
  "join sep [] = []"
| "join sep [x] = x"
| "join sep (x # y # ys) = x @ sep @ join sep (y # ys)"

section \<open>The MCP command builders of setup.ts\<close>

text \<open>
  \<^verbatim>\<open>generateMCPCommand(configPath, isUser, platform)\<close>, lines 248 to 274. The
  function \<^verbatim>\<open>resolve\<close> of \<^verbatim>\<open>node:path\<close> is not code of the repository and is a
  parameter; the platform is the string Node reports (\<^verbatim>\<open>'win32'\<close>, \<^verbatim>\<open>'linux'\<close>, ...).
  Character 0x22 is the double quote. The local constant \<^verbatim>\<open>isAbsolute\<close> (lines 254
  to 257) is a definition of its own, so that statements can name it.
\<close>

definition isAbsolute :: "string \<Rightarrow> bool" where
  "isAbsolute configPath \<longleftrightarrow>
     startsWith configPath ''/'' \<or>
     startsWith configPath [CHR 0x5C] \<or>
     (length configPath > 1 \<and> configPath ! 1 = CHR '':'')"

definition generateMCPCommand :: "(string \<Rightarrow> string) \<Rightarrow> string \<Rightarrow> bool \<Rightarrow> string \<Rightarrow> string" where
  "generateMCPCommand resolve configPath isUser platform =
     (let absoluteConfigPath = (if isAbsolute configPath then configPath else resolve configPath);
          scopeFlag = (if isUser then '' --scope user'' else []);
          isWindows = (platform = ''win32'');
          commandPrefix = (if isWindows then ''cmd /c '' else []);
          pathWithSpaces = str_includes absoluteConfigPath '' '';
          quotedPath =
            (if pathWithSpaces
             then (if isWindows then [CHR 0x22] @ absoluteConfigPath @ [CHR 0x22]
                   else replace_spaces absoluteConfigPath)
             else absoluteConfigPath)
      in ''claude mcp add cclsp '' @ commandPrefix @ ''npx github:sysid/cclsp'' @ scopeFlag @
         '' --env CCLSP_CONFIG_PATH='' @ quotedPath)"

text \<open>
  \<^verbatim>\<open>buildMCPArgs(absoluteConfigPath, isUser, platform)\<close>, lines 276 to 310. Each
  \<^verbatim>\<open>push\<close> appends to the array built so far.
\<close>

definition buildMCPArgs :: "string \<Rightarrow> bool \<Rightarrow> string \<Rightarrow> string list" where
  "buildMCPArgs absoluteConfigPath isUser platform =
     (let mcpArgs0 = [''mcp'', ''add''];
          isWindows = (platform = ''win32'');
          mcpArgs1 = mcpArgs0 @ [''cclsp''];
          mcpArgs2 =
            (if isWindows then mcpArgs1 @ [''cmd'', ''/c'', ''npx'', ''github:sysid/cclsp'']
             else mcpArgs1 @ [''npx'', ''github:sysid/cclsp'']);
          mcpArgs3 = (if isUser then mcpArgs2 @ [''--scope'', ''user''] else mcpArgs2);
          pathWithSpaces = str_includes absoluteConfigPath '' '';
          quotedPath =
            (if pathWithSpaces
             then (if isWindows then [CHR 0x22] @ absoluteConfigPath @ [CHR 0x22]
                   else replace_spaces absoluteConfigPath)
             else absoluteConfigPath)
      in mcpArgs3 @ [''--env'', ''CCLSP_CONFIG_PATH='' @ quotedPath])"

text \<open>
  The rendering rule as the specification words it, to be compared with the code of
  the two builders: a path with a space is put between double quotes on \<^verbatim>\<open>win32\<close>
  and has each space replaced by backslash and space elsewhere; a path without a
  space is left as it is.
\<close>

definition rendered_by_rule :: "string \<Rightarrow> string \<Rightarrow> string" where
  "rendered_by_rule platform p =
     (if CHR '' '' \<in> set p
      then (if platform = ''win32'' then [CHR 0x22] @ p @ [CHR 0x22]
            else concat (map (\<lambda>c. if c = CHR '' '' then [CHR 0x5C, CHR '' ''] else [c]) p))
      else p)"

text \<open>
  The number of positions of a string at which a given text starts; it counts how
  often \<^verbatim>\<open>--env\<close> is written in a command string.
\<close>

fun occurrences :: "string \<Rightarrow> string \<Rightarrow> nat" where
  "occurrences sub [] = (if sub = [] then 1 else 0)"
| "occurrences sub (c # cs) = (if startsWith (c # cs) sub then 1 else 0) + occurrences sub cs"

section \<open>Running a command: runCommand and runCommandSilent\<close>

text \<open>
  \<^verbatim>\<open>runCommand\<close> (lines 135 to 197) and \<^verbatim>\<open>runCommandSilent\<close> (lines 199 to 246)
  return a promise whose executor spawns a child process and registers four
  handlers. The child process is not code of the repository: it is modelled by the
  sequence of events it emits, and the handlers are run over that sequence.
  \<^verbatim>\<open>'close'\<close> carries the exit code, a number or \<^verbatim>\<open>null\<close>.
\<close>

datatype child_event =
    StdoutData string
  | StderrData string
  | ErrorEvent string
  | CloseEvent "int option"

text \<open>
  What the call of \<^verbatim>\<open>spawn\<close> (lines 153 and 209) does: it throws (Node refuses, for
  one, an argument that holds a NUL character), or it returns a child process, which
  then emits events.
\<close>

datatype spawn_outcome =
    SpawnThrows string
  | Spawned "child_event list"

text \<open>A promise is pending, resolved with a value, or rejected with a reason.\<close>

datatype 'r promise_state =
    Pending
  | Resolved 'r
  | Rejected string

text \<open>
  The variables the handlers share (\<^verbatim>\<open>output\<close>, \<^verbatim>\<open>error\<close>, \<^verbatim>\<open>hasErrored\<close>; the
  first two are named \<open>outputBuf\<close> and \<open>errorBuf\<close> here) and the promise. Console
  output is not part of the model, nor are the parameters \<^verbatim>\<open>name\<close> and
  \<^verbatim>\<open>showInstallingMessage\<close>, which only feed it.
\<close>

record 'r run_state =
  outputBuf :: string
  errorBuf :: string
  hasErrored :: bool
  promise :: "'r promise_state"

text \<open>
  Calling \<^verbatim>\<open>resolve(v)\<close>: JavaScript settles a pending promise and ignores the call
  on a promise that is settled already. An exception thrown by the executor rejects
  the promise in the same way.
\<close>

definition resolve_promise :: "'r \<Rightarrow> 'r run_state \<Rightarrow> 'r run_state" where
  "resolve_promise v s = (case promise s of Pending \<Rightarrow> s\<lparr>promise := Resolved v\<rparr> | _ \<Rightarrow> s)"

definition reject_promise :: "string \<Rightarrow> 'r run_state \<Rightarrow> 'r run_state" where
  "reject_promise reason s = (case promise s of Pending \<Rightarrow> s\<lparr>promise := Rejected reason\<rparr> | _ \<Rightarrow> s)"

text \<open>
  \<^verbatim>\<open>String.prototype.trim\<close>, on the white space and line terminators that fit a
  character of this model.
\<close>

definition is_whitespace :: "char \<Rightarrow> bool" where
  "is_whitespace c \<longleftrightarrow>
     c \<in> set [CHR 0x09, CHR 0x0A, CHR 0x0B, CHR 0x0C, CHR 0x0D, CHR 0x20, CHR 0xA0]"

definition trim :: "string \<Rightarrow> string" where
  "trim s = rev (dropWhile is_whitespace (rev (dropWhile is_whitespace s)))"

definition initial_state :: "'r run_state" where
  "initial_state = \<lparr>outputBuf = [], errorBuf = [], hasErrored = False, promise = Pending\<rparr>"

text \<open>The four handlers of \<^verbatim>\<open>runCommand\<close>, lines 162 to 195.\<close>

fun runCommand_on :: "child_event \<Rightarrow> bool run_state \<Rightarrow> bool run_state" where
  "runCommand_on (StdoutData d) s = s\<lparr>outputBuf := outputBuf s @ d\<rparr>"
| "runCommand_on (StderrData d) s = s\<lparr>errorBuf := errorBuf s @ d\<rparr>"
| "runCommand_on (ErrorEvent message) s = resolve_promise False (s\<lparr>hasErrored := True\<rparr>)"
| "runCommand_on (CloseEvent code) s =
     (if \<not> hasErrored s
      then (if code = Some 0 then resolve_promise True s else resolve_promise False s)
      else s)"

text \<open>
  The executor: \<^verbatim>\<open>const [cmd, ...args] = command; if (!cmd) { resolve(false); return; }\<close>
  (\<^verbatim>\<open>cmd\<close> is falsy when the list is empty or its head is the empty string), then
  the call of \<^verbatim>\<open>spawn\<close>. The call is not inside a \<^verbatim>\<open>try\<close>: when it throws, the
  executor throws and the promise is rejected. Otherwise the events of the child
  process reach the handlers in order.
\<close>

definition runCommand :: "string list \<Rightarrow> spawn_outcome \<Rightarrow> bool run_state" where
  "runCommand command spawn =
     (case command of
        [] \<Rightarrow> resolve_promise False initial_state
      | cmd # args \<Rightarrow>
          if cmd = [] then resolve_promise False initial_state
          else (case spawn of
                  SpawnThrows reason \<Rightarrow> reject_promise reason initial_state
                | Spawned events \<Rightarrow> foldl (\<lambda>s e. runCommand_on e s) initial_state events))"

text \<open>The result object of \<^verbatim>\<open>runCommandSilent\<close>: \<^verbatim>\<open>{ success, output, error }\<close>.\<close>

record silent_result =
  success :: bool
  out :: string
  err :: string

text \<open>The four handlers of \<^verbatim>\<open>runCommandSilent\<close>, lines 218 to 244.\<close>

fun runCommandSilent_on ::
  "child_event \<Rightarrow> silent_result run_state \<Rightarrow> silent_result run_state" where
  "runCommandSilent_on (StdoutData d) s = s\<lparr>outputBuf := outputBuf s @ d\<rparr>"
| "runCommandSilent_on (StderrData d) s = s\<lparr>errorBuf := errorBuf s @ d\<rparr>"
| "runCommandSilent_on (ErrorEvent message) s =
     resolve_promise \<lparr>success = False, out = trim (outputBuf s), err = message\<rparr>
       (s\<lparr>hasErrored := True\<rparr>)"
| "runCommandSilent_on (CloseEvent code) s =
     (if \<not> hasErrored s
      then resolve_promise
             \<lparr>success = (code = Some 0), out = trim (outputBuf s), err = trim (errorBuf s)\<rparr> s
      else s)"

definition runCommandSilent :: "string list \<Rightarrow> spawn_outcome \<Rightarrow> silent_result run_state" where
  "runCommandSilent command spawn =
     (case command of
        [] \<Rightarrow>
          resolve_promise \<lparr>success = False, out = [], err = ''No command specified''\<rparr>
            initial_state
      | cmd # args \<Rightarrow>
          if cmd = []
          then resolve_promise \<lparr>success = False, out = [], err = ''No command specified''\<rparr>
                 initial_state
          else (case spawn of
                  SpawnThrows reason \<Rightarrow> reject_promise reason initial_state
                | Spawned events \<Rightarrow> foldl (\<lambda>s e. runCommandSilent_on e s) initial_state events))"

text \<open>
  What the claim says of a sequence of events: the first \<^verbatim>\<open>'error'\<close> or \<^verbatim>\<open>'close'\<close>
  event settles the promise, an error with failure, a close with success exactly
  when the exit code is 0; data events settle nothing.
\<close>

fun first_settle :: "child_event list \<Rightarrow> bool promise_state" where
  "first_settle [] = Pending"
| "first_settle (ErrorEvent message # es) = Resolved False"
| "first_settle (CloseEvent code # es) = Resolved (code = Some 0)"
| "first_settle (StdoutData d # es) = first_settle es"
| "first_settle (StderrData d # es) = first_settle es"

text \<open>
  The same for the result object of \<^verbatim>\<open>runCommandSilent\<close>, which also carries the
  trimmed output collected before the settling event and, as its error text, the
  message of the error or the trimmed text of the error stream.
\<close>

fun first_settle_silent :: "string \<Rightarrow> string \<Rightarrow> child_event list \<Rightarrow> silent_result promise_state" where
  "first_settle_silent stdoutText stderrText [] = Pending"
| "first_settle_silent stdoutText stderrText (ErrorEvent message # es) =
     Resolved \<lparr>success = False, out = trim stdoutText, err = message\<rparr>"
| "first_settle_silent stdoutText stderrText (CloseEvent code # es) =
     Resolved \<lparr>success = (code = Some 0), out = trim stdoutText, err = trim stderrText\<rparr>"
| "first_settle_silent stdoutText stderrText (StdoutData d # es) = first_settle_silent (stdoutText @ d) stderrText es"
| "first_settle_silent stdoutText stderrText (StderrData d # es) = first_settle_silent stdoutText (stderrText @ d) es"

section \<open>The configuration file written by the setup flow\<close>

text \<open>
  A JSON value; the members of an object are kept in the order they were set, which
  is the order \<^verbatim>\<open>JSON.stringify\<close> writes them in.
\<close>

datatype json =
    JNull
  | JBool bool
  | JNumber int
  | JString string
  | JArray "json list"
  | JObject "(string \<times> json) list"

text \<open>
  An entry of the table \<^verbatim>\<open>LANGUAGE_SERVERS\<close>, with the fields that \<^verbatim>\<open>setup.ts\<close> and
  the tests read. The table itself is declared in \<^verbatim>\<open>language-servers.ts\<close>, which
  is not among the sources: it is a parameter of everything below.
\<close>

record language_server =
  name :: string
  displayName :: string
  description :: string
  extensions :: "string list"
  command :: "string list"
  installInstructions :: string
  installRequired :: "bool option"
  restartInterval :: "int option"
  initializationOptions :: "json option"

text \<open>
  Modelled from the spec: \<^verbatim>\<open>generateConfig\<close> of \<^verbatim>\<open>language-servers.ts\<close> is missing
  from the sources; only its caller (\<^verbatim>\<open>main\<close>, line 513) and its tests
  (\<^verbatim>\<open>setup.test.ts\<close>, lines 86 to 203) are there. The specification describes the
  configuration as an ordered list of server descriptors, each with extensions, a
  command, a working directory, an optional restart interval in minutes and optional
  opaque initialization options; the tests add that the object has the one key
  \<^verbatim>\<open>servers\<close>, that only the servers whose name is selected appear, that
  \<^verbatim>\<open>rootDir\<close> is \<^verbatim>\<open>'.'\<close> and that \<^verbatim>\<open>restartInterval\<close> is undefined for a server
  that has none.
\<close>

definition server_entry :: "language_server \<Rightarrow> json" where
  "server_entry server =
     JObject
       ([(''extensions'', JArray (map JString (extensions server))),
         (''command'', JArray (map JString (command server))),
         (''rootDir'', JString ''.'')] @
        (case restartInterval server of
           None \<Rightarrow> []
         | Some minutes \<Rightarrow> [(''restartInterval'', JNumber minutes)]) @
        (case initializationOptions server of
           None \<Rightarrow> []
         | Some options \<Rightarrow> [(''initializationOptions'', options)]))"

definition generateConfig :: "language_server list \<Rightarrow> string list \<Rightarrow> json" where
  "generateConfig LANGUAGE_SERVERS selectedLanguages =
     JObject
       [(''servers'',
         JArray (map server_entry
           (filter (\<lambda>server. name server \<in> set selectedLanguages) LANGUAGE_SERVERS)))]"

text \<open>
  Lines 512 to 520 of \<^verbatim>\<open>main\<close>, with the \<^verbatim>\<open>catch\<close> of lines 696 to 699: the
  configuration is generated and serialized, the directory of the chosen path is
  created, and the text is written to the path. \<^verbatim>\<open>mkdirSync\<close> and \<^verbatim>\<open>writeFileSync\<close>
  can throw; the \<^verbatim>\<open>catch\<close> then reports the error and ends the process with
  \<^verbatim>\<open>process.exit(1)\<close>. \<^verbatim>\<open>JSON.stringify\<close> and \<^verbatim>\<open>dirname\<close> are parameters, as is
  which calls throw; the file system maps a path to the content of the file there.
  The outcome is that of these lines: the file system after the write, or the exit
  code.
\<close>

datatype write_outcome =
    Written "string \<rightharpoonup> string"
  | Exited int

definition write_config ::
  "(json \<Rightarrow> string) \<Rightarrow> (string \<Rightarrow> string) \<Rightarrow> (string \<Rightarrow> bool) \<Rightarrow> (string \<Rightarrow> bool) \<Rightarrow>
   language_server list \<Rightarrow> string list \<Rightarrow> string \<Rightarrow> (string \<rightharpoonup> string) \<Rightarrow>
   write_outcome" where
  "write_config stringify dirnameOf mkdirThrows writeThrows LANGUAGE_SERVERS selectedLanguages
     configPath fs =
     (let config = generateConfig LANGUAGE_SERVERS selectedLanguages;
          configJson = stringify config;
          configDir = dirnameOf configPath
      in if mkdirThrows configDir then Exited 1
         else if writeThrows configPath then Exited 1
         else Written (fs(configPath \<mapsto> configJson)))"

text \<open>The member of a JSON object under a key.\<close>

fun member_of :: "json \<Rightarrow> string \<Rightarrow> json option" where
  "member_of (JObject kvs) k = map_of kvs k"
| "member_of _ k = None"

text \<open>A table of two servers, as the tests describe them, to run the model on.\<close>

definition example_servers :: "language_server list" where
  "example_servers =
     [\<lparr>name = ''typescript'', displayName = ''TypeScript/JavaScript'', description = [],
        extensions = [''js'', ''ts'', ''jsx'', ''tsx''],
        command = [''npx'', ''--'', ''typescript-language-server'', ''--stdio''],
        installInstructions = ''npm install -g typescript-language-server typescript'',
        installRequired = None, restartInterval = None, initializationOptions = None\<rparr>,
      \<lparr>name = ''python'', displayName = ''Python'', description = [],
        extensions = [''py'', ''pyi''],
        command = [''pylsp''],
        installInstructions = ''pip install python-lsp-server'',
        installRequired = None, restartInterval = Some 5, initializationOptions = None\<rparr>]"

section \<open>Applying a rename to the files\<close>

text \<open>
  Modelled from the spec: the rename orchestrator (the file editor of the core) is
  missing from the sources, so its apply operation is written here from sections 3
  and 4.6 of the specification and from the README. A file system maps a path to the
  content of the file there.
\<close>

type_synonym filesystem = "string \<rightharpoonup> string"

text \<open>
  A FileEditPlan: one entry of the workspace edit materialized into the original
  content of the file, the proposed new content, and a backup file path.
\<close>

record file_edit_plan =
  filePath :: string
  originalContent :: string
  newContent :: string
  backupPath :: string

text \<open>The fixed suffix of a backup file; the README names it.\<close>

definition backup_suffix :: string where
  "backup_suffix = ''.bak''"

text \<open>
  Modelled from the spec: the planning step of the missing rename orchestrator
  (sections 3 and 4.6). The plans of a workspace edit, an ordered mapping from a file path to its
  replacements. How replacements rewrite a content is a parameter. A file that does
  not exist is planned with an empty original content, which the check made before
  applying then refuses.
\<close>

definition compute_plans ::
  "(string \<Rightarrow> 'r list \<Rightarrow> string) \<Rightarrow> filesystem \<Rightarrow> (string \<times> 'r list) list \<Rightarrow> file_edit_plan list" where
  "compute_plans rewrite fs workspaceEdit =
     map (\<lambda>(path, replacements).
            let original = (case fs path of Some content \<Rightarrow> content | None \<Rightarrow> [])
            in \<lparr>filePath = path, originalContent = original,
                newContent = rewrite original replacements,
                backupPath = path @ backup_suffix\<rparr>)
         workspaceEdit"

text \<open>
  The operations that apply performs on the file system, in order, and the ways it
  fails.
\<close>

datatype fs_op =
    ReadContent string
  | WriteBackup string string string
  | WriteContent string string

datatype apply_error =
    ConcurrentModification string
  | BackupFailed string
  | WriteFailed string

record apply_result =
  ops :: "fs_op list"
  appliedFiles :: "string list"
  failure :: "apply_error option"

text \<open>
  Modelled from the spec: the apply operation of the missing rename orchestrator
  (section 4.6), file by file: read the current content, verify that it is the content the
  plan was computed from (ConcurrentModification otherwise), write the backup copy,
  write the new content, record the file as applied. A failure stops the sequence;
  the files applied before it stay as written and are reported with the failure.
  Which paths can be written is a parameter.
\<close>

fun apply_plans :: "(string \<Rightarrow> bool) \<Rightarrow> filesystem \<Rightarrow> file_edit_plan list \<Rightarrow> apply_result" where
  "apply_plans can_write fs [] = \<lparr>ops = [], appliedFiles = [], failure = None\<rparr>"
| "apply_plans can_write fs (p # ps) =
     (if fs (filePath p) \<noteq> Some (originalContent p)
      then \<lparr>ops = [ReadContent (filePath p)], appliedFiles = [],
            failure = Some (ConcurrentModification (filePath p))\<rparr>
      else if \<not> can_write (backupPath p)
      then \<lparr>ops = [ReadContent (filePath p)], appliedFiles = [],
            failure = Some (BackupFailed (filePath p))\<rparr>
      else if \<not> can_write (filePath p)
      then \<lparr>ops = [ReadContent (filePath p),
                   WriteBackup (filePath p) (backupPath p) (originalContent p)],
            appliedFiles = [], failure = Some (WriteFailed (filePath p))\<rparr>
      else
        (let fs1 = fs(backupPath p \<mapsto> originalContent p);
             fs2 = fs1(filePath p \<mapsto> newContent p);
             r = apply_plans can_write fs2 ps
         in r\<lparr>ops := [ReadContent (filePath p),
                        WriteBackup (filePath p) (backupPath p) (originalContent p),
                        WriteContent (filePath p) (newContent p)] @ ops r,
               appliedFiles := filePath p # appliedFiles r\<rparr>))"

text \<open>
  Modelled from the spec: the entry point of apply in the missing rename
  orchestrator, on a workspace edit: the plans are computed from the file
  system as it was when the edit was requested, and applied to the file system as it
  is now.
\<close>

definition renameApply ::
  "(string \<Rightarrow> 'r list \<Rightarrow> string) \<Rightarrow> (string \<Rightarrow> bool) \<Rightarrow> filesystem \<Rightarrow> filesystem \<Rightarrow>
   (string \<times> 'r list) list \<Rightarrow> apply_result" where
  "renameApply rewrite can_write fs_planned fs workspaceEdit =
     apply_plans can_write fs (compute_plans rewrite fs_planned workspaceEdit)"

text \<open>The effect of an operation, and of a sequence of them, on a file system.\<close>

fun perform :: "fs_op \<Rightarrow> filesystem \<Rightarrow> filesystem" where
  "perform (ReadContent path) fs = fs"
| "perform (WriteBackup path backup content) fs = fs(backup \<mapsto> content)"
| "perform (WriteContent path content) fs = fs(path \<mapsto> content)"

definition replay :: "fs_op list \<Rightarrow> filesystem \<Rightarrow> filesystem" where
  "replay operations fs = fold perform operations fs"

text \<open>The directory part of a path: everything up to its last slash.\<close>

definition dirname :: "string \<Rightarrow> string" where
  "dirname path = rev (dropWhile (\<lambda>c. c \<noteq> CHR ''/'') (rev path))"

text \<open>
  A monitor over a sequence of operations: every backup is written beside its
  original with the content the original holds then, and every overwrite finds the
  backup of its file already written and holding the content about to be replaced.
\<close>

fun guarded :: "filesystem \<Rightarrow> string list \<Rightarrow> fs_op list \<Rightarrow> bool" where
  "guarded fs saved [] \<longleftrightarrow> True"
| "guarded fs saved (ReadContent path # rest) \<longleftrightarrow> guarded fs saved rest"
| "guarded fs saved (WriteBackup path backup content # rest) \<longleftrightarrow>
     backup = path @ backup_suffix \<and> fs path = Some content \<and>
     guarded (fs(backup \<mapsto> content)) (path # saved) rest"
| "guarded fs saved (WriteContent path content # rest) \<longleftrightarrow>
     path \<in> set saved \<and> fs (path @ backup_suffix) = fs path \<and> fs path \<noteq> None \<and>
     guarded (fs(path \<mapsto> content)) saved rest"

text \<open>Two files and an edit of both, to run the model on.\<close>

definition example_fs :: filesystem where
  "example_fs = [''src/a.ts'' \<mapsto> ''data'', ''src/b.ts'' \<mapsto> ''use data'']"

definition example_edit :: "(string \<times> string list) list" where
  "example_edit = [(''src/a.ts'', [''value'']), (''src/b.ts'', [''use '', ''value''])]"

section \<open>The transport framer\<close>

text \<open>
  Modelled from the spec: the transport framer of the core is missing from the
  sources, so it is written here from section 4.1 of the specification. A framed
  message is modelled by its payload, the bytes of its JSON text; the wire format is
  \<^verbatim>\<open>Content-Length: <n>\r\n\r\n<n bytes>\<close>, with \<^verbatim>\<open>n\<close> in decimal. Character 0x0D is
  the carriage return and 0x0A the line feed.
\<close>

definition digit_char :: "nat \<Rightarrow> char" where
  "digit_char d = char_of (48 + d)"

fun show_nat :: "nat \<Rightarrow> string" where
  "show_nat n = (if n < 10 then [digit_char n] else show_nat (n div 10) @ [digit_char (n mod 10)])"

declare show_nat.simps [simp del]

definition is_digit :: "char \<Rightarrow> bool" where
  "is_digit c \<longleftrightarrow> 48 \<le> (of_char c :: nat) \<and> (of_char c :: nat) \<le> 57"

definition digit_value :: "char \<Rightarrow> nat" where
  "digit_value c = of_char c - 48"

definition parse_nat :: "string \<Rightarrow> nat option" where
  "parse_nat s =
     (if s \<noteq> [] \<and> list_all is_digit s
      then Some (foldl (\<lambda>acc c. 10 * acc + digit_value c) 0 s)
      else None)"

text \<open>
  Modelled from the spec: the encoder of the missing transport framer (section 4.1):
  the length header, an empty line, the payload.
\<close>

definition header_end :: string where
  "header_end = [CHR 0x0D, CHR 0x0A, CHR 0x0D, CHR 0x0A]"

definition frame_header :: "string \<Rightarrow> string" where
  "frame_header payload = ''Content-Length: '' @ show_nat (length payload)"

definition encode :: "string \<Rightarrow> string" where
  "encode payload = frame_header payload @ header_end @ payload"

text \<open>
  Modelled from the spec: the decoder of the missing transport framer (section 4.1).
  The decoder keeps the bytes it has not consumed yet. After each read it takes
  every complete frame off the front of its buffer: the header runs to the first
  empty line, it must be a length header with a decimal number, and the payload is
  the next \<^verbatim>\<open>n\<close> bytes; a frame that is not complete yet stays in the buffer. A
  stream that ends inside a frame is a framing error.
\<close>

datatype framing_error = MissingLength | MalformedLength | Truncated

fun split_header :: "string \<Rightarrow> (string \<times> string) option" where
  "split_header [] = None"
| "split_header (c # cs) =
     (if startsWith (c # cs) header_end then Some ([], drop 4 (c # cs))
      else map_option (\<lambda>(header, rest). (c # header, rest)) (split_header cs))"

definition parse_header :: "string \<Rightarrow> framing_error + nat" where
  "parse_header header =
     (if startsWith header ''Content-Length: ''
      then (case parse_nat (drop 16 header) of
              None \<Rightarrow> Inl MalformedLength
            | Some n \<Rightarrow> Inr n)
      else Inl MissingLength)"

text \<open>The rest after a header is shorter than the buffer, so taking frames terminates.\<close>

lemma split_header_shorter:
  "split_header buffer = Some (header, rest) \<Longrightarrow> length rest < length buffer"
  by (induction buffer arbitrary: header) (auto split: if_splits)

function extract_frames :: "string \<Rightarrow> framing_error + (string list \<times> string)" where
  "extract_frames buffer =
     (case split_header buffer of
        None \<Rightarrow> Inr ([], buffer)
      | Some (header, rest) \<Rightarrow>
          (case parse_header header of
             Inl e \<Rightarrow> Inl e
           | Inr n \<Rightarrow>
               if length rest < n then Inr ([], buffer)
               else (case extract_frames (drop n rest) of
                       Inl e \<Rightarrow> Inl e
                     | Inr (payloads, remaining) \<Rightarrow> Inr (take n rest # payloads, remaining))))"
  by pat_completeness auto
termination
  by (relation "measure length") (auto dest: split_header_shorter)

declare extract_frames.simps [simp del]

fun decode_chunks :: "string \<Rightarrow> string list \<Rightarrow> framing_error + (string list \<times> string)" where
  "decode_chunks buffer [] = Inr ([], buffer)"
| "decode_chunks buffer (chunk # chunks) =
     (case extract_frames (buffer @ chunk) of
        Inl e \<Rightarrow> Inl e
      | Inr (payloads, remaining) \<Rightarrow>
          (case decode_chunks remaining chunks of
             Inl e \<Rightarrow> Inl e
           | Inr (later, final) \<Rightarrow> Inr (payloads @ later, final)))"

definition decode_stream :: "string list \<Rightarrow> framing_error + string list" where
  "decode_stream chunks =
     (case decode_chunks [] chunks of
        Inl e \<Rightarrow> Inl e
      | Inr (payloads, remaining) \<Rightarrow> if remaining = [] then Inr payloads else Inl Truncated)"

section \<open>Agreement of the two builders\<close>

text \<open>
  Claim C8. For a configuration path that begins with a slash, every user flag and
  every platform, the string of \<^const>\<open>generateMCPCommand\<close> is \<^verbatim>\<open>claude\<close>, a space,
  and the elements of \<^const>\<open>buildMCPArgs\<close> for the same inputs joined by single
  spaces.
\<close>

theorem generateMCPCommand_eq_join_buildMCPArgs:
  assumes "startsWith configPath ''/''"
  shows "generateMCPCommand resolve configPath isUser platform =
         ''claude '' @ join '' '' (buildMCPArgs configPath isUser platform)"
  using assms by (simp add: generateMCPCommand_def buildMCPArgs_def isAbsolute_def Let_def)

theorem generateMCPCommand_eq_join_buildMCPArgs_witness:
  "startsWith ''/path with spaces/config.json'' ''/'' \<and>
   generateMCPCommand (\<lambda>p. ''/cwd/'' @ p) ''/path with spaces/config.json'' True ''linux'' =
     ''claude '' @ join '' '' (buildMCPArgs ''/path with spaces/config.json'' True ''linux'') \<and>
   generateMCPCommand (\<lambda>p. ''/cwd/'' @ p) ''/path with spaces/config.json'' True ''linux'' =
     ''claude mcp add cclsp npx github:sysid/cclsp --scope user --env CCLSP_CONFIG_PATH=/path''
       @ [CHR 0x5C] @ '' with'' @ [CHR 0x5C] @ '' spaces/config.json''"
proof -
  have h: "startsWith ''/path with spaces/config.json'' ''/''"
    by (simp add: startsWith_def)
  have v: "generateMCPCommand (\<lambda>p. ''/cwd/'' @ p) ''/path with spaces/config.json'' True ''linux'' =
     ''claude mcp add cclsp npx github:sysid/cclsp --scope user --env CCLSP_CONFIG_PATH=/path''
       @ [CHR 0x5C] @ '' with'' @ [CHR 0x5C] @ '' spaces/config.json''"
    by (simp add: generateMCPCommand_def isAbsolute_def Let_def startsWith_def)
  show ?thesis
    using h v generateMCPCommand_eq_join_buildMCPArgs [OF h, of "\<lambda>p. ''/cwd/'' @ p" True "''linux''"]
    by simp
qed

section \<open>The rendering of the configuration path\<close>

lemma str_includes_space: "str_includes s '' '' \<longleftrightarrow> CHR '' '' \<in> set s"
  by (induction s) (auto simp: startsWith_def)

lemma replace_spaces_concat:
  "replace_spaces s = concat (map (\<lambda>c. if c = CHR '' '' then [CHR 0x5C, CHR '' ''] else [c]) s)"
  by (induction s) auto

lemma quotedPath_rule:
  "(if str_includes p '' ''
    then (if platform = ''win32'' then [CHR 0x22] @ p @ [CHR 0x22] else replace_spaces p)
    else p) = rendered_by_rule platform p"
  by (simp add: rendered_by_rule_def str_includes_space replace_spaces_concat)

text \<open>
  Claim C9. Both builders render the value of \<^verbatim>\<open>CCLSP_CONFIG_PATH\<close> by the one rule
  \<^const>\<open>rendered_by_rule\<close>: quoted on \<^verbatim>\<open>win32\<close> and backslash-escaped elsewhere when
  the path has a space, unchanged and unquoted when it has none. In
  \<^const>\<open>generateMCPCommand\<close> the path rendered is the absolute one (the argument itself
  when the code takes it for absolute, its resolution otherwise); in
  \<^const>\<open>buildMCPArgs\<close> it is the argument.
\<close>

theorem both_builders_render_by_rule:
  "generateMCPCommand resolve configPath isUser platform =
     ''claude mcp add cclsp '' @ (if platform = ''win32'' then ''cmd /c '' else []) @
     ''npx github:sysid/cclsp'' @ (if isUser then '' --scope user'' else []) @
     '' --env CCLSP_CONFIG_PATH='' @
     rendered_by_rule platform (if isAbsolute configPath then configPath else resolve configPath)
   \<and> last (buildMCPArgs absoluteConfigPath isUser platform) =
     ''CCLSP_CONFIG_PATH='' @ rendered_by_rule platform absoluteConfigPath"
  unfolding generateMCPCommand_def buildMCPArgs_def Let_def quotedPath_rule
  by simp

section \<open>The single environment assignment\<close>

lemma occurrences_zero: "occurrences sub s = 0 \<longleftrightarrow> \<not> str_includes s sub"
  by (induction s) auto

lemma startsWith_replace_spaces:
  "CHR '' '' \<notin> set t \<Longrightarrow> CHR 0x5C \<notin> set t \<Longrightarrow>
   startsWith (replace_spaces s) t \<Longrightarrow> startsWith s t"
proof (induction t arbitrary: s)
  case Nil
  then show ?case by (simp add: startsWith_def)
next
  case (Cons d t)
  show ?case
  proof (cases s)
    case Nil
    with Cons.prems show ?thesis by (simp add: startsWith_def)
  next
    case (Cons c s')
    show ?thesis
    proof (cases "c = CHR '' ''")
      case True
      with Cons.prems Cons show ?thesis by (auto simp: startsWith_def)
    next
      case False
      with Cons.prems Cons have "c = d" and "startsWith (replace_spaces s') t"
        by (auto simp: startsWith_def)
      moreover have "CHR '' '' \<notin> set t" "CHR 0x5C \<notin> set t" using Cons.prems by auto
      ultimately have "startsWith s' t" using Cons.IH by blast
      then show ?thesis using \<open>c = d\<close> Cons by (simp add: startsWith_def)
    qed
  qed
qed

lemma str_includes_replace_spaces:
  "sub \<noteq> [] \<Longrightarrow> CHR '' '' \<notin> set sub \<Longrightarrow> CHR 0x5C \<notin> set sub \<Longrightarrow>
   str_includes (replace_spaces s) sub \<Longrightarrow> str_includes s sub"
proof (induction s)
  case Nil
  then show ?case by simp
next
  case (Cons c s)
  obtain d t where sub: "sub = d # t" using Cons.prems(1) by (cases sub) auto
  show ?case
  proof (cases "c = CHR '' ''")
    case True
    have "d \<noteq> CHR 0x5C" "d \<noteq> CHR '' ''" using Cons.prems sub by auto
    then have "str_includes (replace_spaces s) sub"
      using Cons.prems(4) True sub by (auto simp: startsWith_def)
    then show ?thesis using Cons by simp
  next
    case False
    then have "startsWith (c # replace_spaces s) sub \<or> str_includes (replace_spaces s) sub"
      using Cons.prems(4) by simp
    then show ?thesis
    proof
      assume "startsWith (c # replace_spaces s) sub"
      then have "startsWith (replace_spaces (c # s)) sub" using False by simp
      then have "startsWith (c # s) sub"
        using Cons.prems(2,3) by (rule startsWith_replace_spaces [rotated 2])
      then show ?thesis by simp
    next
      assume "str_includes (replace_spaces s) sub"
      then show ?thesis using Cons by simp
    qed
  qed
qed

lemma startsWith_snoc:
  "q \<notin> set sub \<Longrightarrow> startsWith (s @ [q]) sub \<Longrightarrow> startsWith s sub"
proof (induction sub arbitrary: s)
  case Nil
  then show ?case by (simp add: startsWith_def)
next
  case (Cons d t)
  show ?case
  proof (cases s)
    case Nil
    with Cons.prems show ?thesis by (auto simp: startsWith_def)
  next
    case (Cons c s')
    with Cons.prems have "c = d" "startsWith (s' @ [q]) t" by (auto simp: startsWith_def)
    moreover have "q \<notin> set t" using Cons.prems by simp
    ultimately show ?thesis using Cons.IH Cons by (auto simp: startsWith_def)
  qed
qed

lemma str_includes_snoc:
  "sub \<noteq> [] \<Longrightarrow> q \<notin> set sub \<Longrightarrow> str_includes (s @ [q]) sub \<Longrightarrow> str_includes s sub"
proof (induction s)
  case Nil
  then show ?case by (cases sub) (auto simp: startsWith_def)
next
  case (Cons c s)
  from Cons.prems(3) have "startsWith ((c # s) @ [q]) sub \<or> str_includes (s @ [q]) sub" by simp
  then show ?case
    using Cons.IH Cons.prems(1,2) startsWith_snoc [of q sub "c # s"] by auto
qed

lemma str_includes_quoted:
  "sub \<noteq> [] \<Longrightarrow> q \<notin> set sub \<Longrightarrow> str_includes ([q] @ s @ [q]) sub \<Longrightarrow> str_includes s sub"
proof -
  assume a: "sub \<noteq> []" "q \<notin> set sub" "str_includes ([q] @ s @ [q]) sub"
  obtain d t where sub: "sub = d # t" using a(1) by (cases sub) auto
  have "\<not> startsWith (q # s @ [q]) sub" using a(2) sub by (auto simp: startsWith_def)
  with a(3) have "str_includes (s @ [q]) sub" by simp
  then show ?thesis using a(1,2) by (rule str_includes_snoc [rotated 2])
qed

lemma rendered_keeps_free:
  "\<not> str_includes p ''--env'' \<Longrightarrow> \<not> str_includes (rendered_by_rule platform p) ''--env''"
proof -
  assume n: "\<not> str_includes p ''--env''"
  have q: "\<not> str_includes ([CHR 0x22] @ p @ [CHR 0x22]) ''--env''"
    using n str_includes_quoted [of "''--env''" "CHR 0x22" p] by auto
  have r: "\<not> str_includes (replace_spaces p) ''--env''"
    using n str_includes_replace_spaces [of "''--env''" p] by auto
  show ?thesis
    using n q r by (simp add: rendered_by_rule_def replace_spaces_concat [symmetric])
qed

lemma occurrences_command:
  "occurrences ''--env''
     (''claude mcp add cclsp '' @ (if platform = ''win32'' then ''cmd /c '' else []) @
      ''npx github:sysid/cclsp'' @ (if isUser then '' --scope user'' else []) @
      '' --env CCLSP_CONFIG_PATH='' @ r) = 1 + occurrences ''--env'' r"
  by (simp add: startsWith_def)

lemma generateMCPCommand_parts:
  "generateMCPCommand resolve configPath isUser platform =
     ''claude mcp add cclsp '' @ (if platform = ''win32'' then ''cmd /c '' else []) @
     ''npx github:sysid/cclsp'' @ (if isUser then '' --scope user'' else []) @
     '' --env CCLSP_CONFIG_PATH='' @
     rendered_by_rule platform
       (if startsWith configPath ''/'' \<or> startsWith configPath [CHR 0x5C] \<or>
           (1 < length configPath \<and> configPath ! 1 = CHR '':'')
        then configPath else resolve configPath)"
  unfolding generateMCPCommand_def Let_def quotedPath_rule isAbsolute_def by simp

text \<open>
  Claim C1, as stated, fails for the command string. On \<^verbatim>\<open>win32\<close> a path with a
  space is put between double quotes, but a double quote inside the path is copied
  as it is: the path \<^verbatim>\<open>/a" --env FOO="b\<close> yields a command string in which
  \<^verbatim>\<open>--env\<close> is written twice, the second time outside the quotes and followed by the
  assignment of another variable. Elsewhere only spaces are escaped, so a path with
  tabs around \<^verbatim>\<open>--env\<close> does the same. Nor is the path carried always absolute: the
  relative path \<^verbatim>\<open>a:\<close> passes the test of lines 254 to 257 and is carried as typed.
\<close>

theorem second_env_assignment_counterexample:
  "occurrences ''--env''
     (generateMCPCommand (\<lambda>p. ''/cwd/'' @ p)
        (''/a'' @ [CHR 0x22] @ '' --env FOO='' @ [CHR 0x22] @ ''b'') False ''win32'') = 2 \<and>
   generateMCPCommand (\<lambda>p. ''/cwd/'' @ p)
        (''/a'' @ [CHR 0x22] @ '' --env FOO='' @ [CHR 0x22] @ ''b'') False ''win32'' =
     ''claude mcp add cclsp cmd /c npx github:sysid/cclsp --env CCLSP_CONFIG_PATH='' @
       [CHR 0x22] @ ''/a'' @ [CHR 0x22] @ '' --env FOO='' @ [CHR 0x22] @ ''b'' @ [CHR 0x22] \<and>
   occurrences ''--env''
     (generateMCPCommand (\<lambda>p. ''/cwd/'' @ p)
        (''/a'' @ [CHR 0x09] @ ''--env'' @ [CHR 0x09] @ ''FOO=b'') False ''linux'') = 2 \<and>
   generateMCPCommand (\<lambda>p. ''/cwd/'' @ p) ''a:'' False ''linux'' =
     ''claude mcp add cclsp npx github:sysid/cclsp --env CCLSP_CONFIG_PATH=a:''"
  by (simp add: generateMCPCommand_def isAbsolute_def Let_def startsWith_def)

text \<open>
  Claim C1, amended. The command string is the fixed front part, then
  \<^verbatim>\<open>--env CCLSP_CONFIG_PATH=\<close> and the rendered path, where the path rendered is
  the argument itself when it begins with a slash or a backslash or has a colon as
  its second character, and its resolution otherwise. When that path does not
  contain the text \<^verbatim>\<open>--env\<close>, the text \<^verbatim>\<open>--env\<close> is written exactly once in the
  whole command string. The argument list of \<^const>\<open>buildMCPArgs\<close> ends, for every
  input, with \<^verbatim>\<open>--env\<close> and \<^verbatim>\<open>CCLSP_CONFIG_PATH=\<close> plus the rendered path; no
  argument before them is \<^verbatim>\<open>--env\<close> or holds an equals sign, so \<^verbatim>\<open>--env\<close> is an
  argument exactly once.
\<close>

theorem exactly_one_env_assignment:
  "(\<not> str_includes
        (if startsWith configPath ''/'' \<or> startsWith configPath [CHR 0x5C] \<or>
            (1 < length configPath \<and> configPath ! 1 = CHR '':'')
         then configPath else resolve configPath) ''--env'' \<longrightarrow>
      occurrences ''--env'' (generateMCPCommand resolve configPath isUser platform) = 1)
   \<and> generateMCPCommand resolve configPath isUser platform =
       ''claude mcp add cclsp '' @ (if platform = ''win32'' then ''cmd /c '' else []) @
       ''npx github:sysid/cclsp'' @ (if isUser then '' --scope user'' else []) @
       '' --env CCLSP_CONFIG_PATH='' @
       rendered_by_rule platform
         (if startsWith configPath ''/'' \<or> startsWith configPath [CHR 0x5C] \<or>
             (1 < length configPath \<and> configPath ! 1 = CHR '':'')
          then configPath else resolve configPath)
   \<and> (\<exists>front. buildMCPArgs absoluteConfigPath isUser platform =
       front @ [''--env'', ''CCLSP_CONFIG_PATH='' @ rendered_by_rule platform absoluteConfigPath]
     \<and> ''--env'' \<notin> set front \<and> list_all (\<lambda>a. CHR ''='' \<notin> set a) front)
   \<and> count_list (buildMCPArgs absoluteConfigPath isUser platform) ''--env'' = 1"
proof (intro conjI impI)
  let ?p = "if startsWith configPath ''/'' \<or> startsWith configPath [CHR 0x5C] \<or>
            (1 < length configPath \<and> configPath ! 1 = CHR '':'')
         then configPath else resolve configPath"
  assume "\<not> str_includes ?p ''--env''"
  then have "occurrences ''--env'' (rendered_by_rule platform ?p) = 0"
    by (simp only: occurrences_zero rendered_keeps_free not_False_eq_True)
  then show "occurrences ''--env'' (generateMCPCommand resolve configPath isUser platform) = 1"
    by (simp only: generateMCPCommand_parts occurrences_command)
next
  show "generateMCPCommand resolve configPath isUser platform =
       ''claude mcp add cclsp '' @ (if platform = ''win32'' then ''cmd /c '' else []) @
       ''npx github:sysid/cclsp'' @ (if isUser then '' --scope user'' else []) @
       '' --env CCLSP_CONFIG_PATH='' @
       rendered_by_rule platform
         (if startsWith configPath ''/'' \<or> startsWith configPath [CHR 0x5C] \<or>
             (1 < length configPath \<and> configPath ! 1 = CHR '':'')
          then configPath else resolve configPath)"
    by (rule generateMCPCommand_parts)
next
  let ?front = "[''mcp'', ''add'', ''cclsp''] @
     (if platform = ''win32'' then [''cmd'', ''/c'', ''npx'', ''github:sysid/cclsp'']
      else [''npx'', ''github:sysid/cclsp'']) @
     (if isUser then [''--scope'', ''user''] else [])"
  have "''--env'' \<notin> set ?front" by simp
  moreover have "list_all (\<lambda>a. CHR ''='' \<notin> set a) ?front" by simp
  moreover have "buildMCPArgs absoluteConfigPath isUser platform =
       ?front @ [''--env'', ''CCLSP_CONFIG_PATH='' @ rendered_by_rule platform absoluteConfigPath]"
    unfolding buildMCPArgs_def Let_def quotedPath_rule by simp
  ultimately show "\<exists>front. buildMCPArgs absoluteConfigPath isUser platform =
       front @ [''--env'', ''CCLSP_CONFIG_PATH='' @ rendered_by_rule platform absoluteConfigPath]
     \<and> ''--env'' \<notin> set front \<and> list_all (\<lambda>a. CHR ''='' \<notin> set a) front"
    by blast
next
  show "count_list (buildMCPArgs absoluteConfigPath isUser platform) ''--env'' = 1"
    unfolding buildMCPArgs_def Let_def quotedPath_rule by simp
qed

theorem exactly_one_env_assignment_witness:
  "\<not> str_includes ''/home/u/my project/cclsp.json'' ''--env'' \<and>
   occurrences ''--env''
     (generateMCPCommand (\<lambda>p. ''/cwd/'' @ p) ''/home/u/my project/cclsp.json'' True ''linux'') = 1 \<and>
   generateMCPCommand (\<lambda>p. ''/cwd/'' @ p) ''/home/u/my project/cclsp.json'' True ''linux'' =
     ''claude mcp add cclsp npx github:sysid/cclsp --scope user --env CCLSP_CONFIG_PATH=/home/u/my''
       @ [CHR 0x5C] @ '' project/cclsp.json''"
proof -
  let ?path = "''/home/u/my project/cclsp.json''"
  have h: "\<not> str_includes ?path ''--env''"
    by (simp add: startsWith_def)
  have v: "generateMCPCommand (\<lambda>p. ''/cwd/'' @ p) ?path True ''linux'' =
     ''claude mcp add cclsp npx github:sysid/cclsp --scope user --env CCLSP_CONFIG_PATH=/home/u/my''
       @ [CHR 0x5C] @ '' project/cclsp.json''"
    by (simp add: generateMCPCommand_def isAbsolute_def Let_def startsWith_def)
  have a: "startsWith ?path ''/''" by (simp add: startsWith_def)
  have c: "(if startsWith ?path ''/'' \<or> startsWith ?path [CHR 0x5C] \<or>
            (1 < length ?path \<and> ?path ! 1 = CHR '':'')
         then ?path else (\<lambda>p. ''/cwd/'' @ p) ?path) = ?path"
    using a by (simp only: simp_thms if_True)
  note t = exactly_one_env_assignment [of ?path "\<lambda>p. ''/cwd/'' @ p" True "''linux''", THEN conjunct1]
  have "occurrences ''--env'' (generateMCPCommand (\<lambda>p. ''/cwd/'' @ p) ?path True ''linux'') = 1"
    using t h unfolding c by blast
  with h v show ?thesis by blast
qed

section \<open>The promise of runCommand and runCommandSilent\<close>

lemma resolve_promise_simps:
  "promise (resolve_promise v s) = (case promise s of Pending \<Rightarrow> Resolved v | p \<Rightarrow> p)"
  "hasErrored (resolve_promise v s) = hasErrored s"
  "outputBuf (resolve_promise v s) = outputBuf s"
  "errorBuf (resolve_promise v s) = errorBuf s"
  by (simp_all add: resolve_promise_def split: promise_state.splits)

lemma resolve_promise_settled: "promise s \<noteq> Pending \<Longrightarrow> resolve_promise v s = s"
  by (simp add: resolve_promise_def split: promise_state.splits)

lemma runCommand_fold:
  "(hasErrored s \<longrightarrow> promise s \<noteq> Pending) \<Longrightarrow>
   promise (foldl (\<lambda>s e. runCommand_on e s) s es) =
     (case promise s of Pending \<Rightarrow> first_settle es | p \<Rightarrow> p)"
proof (induction es arbitrary: s)
  case Nil
  then show ?case by (simp split: promise_state.splits)
next
  case (Cons e es)
  have inv: "hasErrored (runCommand_on e s) \<longrightarrow> promise (runCommand_on e s) \<noteq> Pending"
    using Cons.prems by (cases e) (auto simp: resolve_promise_simps split: promise_state.splits)
  have step: "(case promise (runCommand_on e s) of Pending \<Rightarrow> first_settle es | p \<Rightarrow> p) =
     (case promise s of Pending \<Rightarrow> first_settle (e # es) | p \<Rightarrow> p)"
    using Cons.prems by (cases e) (auto simp: resolve_promise_simps split: promise_state.splits)
  show ?case
    using Cons.IH [OF inv] step by simp
qed

lemma runCommandSilent_fold:
  "(hasErrored s \<longrightarrow> promise s \<noteq> Pending) \<Longrightarrow>
   promise (foldl (\<lambda>s e. runCommandSilent_on e s) s es) =
     (case promise s of Pending \<Rightarrow> first_settle_silent (outputBuf s) (errorBuf s) es | p \<Rightarrow> p)"
proof (induction es arbitrary: s)
  case Nil
  then show ?case by (simp split: promise_state.splits)
next
  case (Cons e es)
  have inv: "hasErrored (runCommandSilent_on e s) \<longrightarrow> promise (runCommandSilent_on e s) \<noteq> Pending"
    using Cons.prems by (cases e) (auto simp: resolve_promise_simps split: promise_state.splits)
  have step: "(case promise (runCommandSilent_on e s) of
        Pending \<Rightarrow> first_settle_silent (outputBuf (runCommandSilent_on e s))
                     (errorBuf (runCommandSilent_on e s)) es
      | p \<Rightarrow> p) =
     (case promise s of Pending \<Rightarrow> first_settle_silent (outputBuf s) (errorBuf s) (e # es) | p \<Rightarrow> p)"
    using Cons.prems by (cases e) (auto simp: resolve_promise_simps split: promise_state.splits)
  show ?case
    using Cons.IH [OF inv] step by simp
qed

lemma first_settle_silent_success:
  "map_promise_state success (first_settle_silent stdoutText stderrText es) = first_settle es"
  by (induction stdoutText stderrText es rule: first_settle_silent.induct) simp_all

lemma settled_stays:
  "promise s \<noteq> Pending \<Longrightarrow> promise (foldl (\<lambda>s e. runCommand_on e s) s es) = promise s"
proof (induction es arbitrary: s)
  case Nil
  show ?case by simp
next
  case (Cons e es)
  have "promise (runCommand_on e s) = promise s"
    using Cons.prems by (cases e) (auto simp: resolve_promise_settled)
  with Cons show ?case by simp
qed

lemma settled_stays_silent:
  "promise s \<noteq> Pending \<Longrightarrow> promise (foldl (\<lambda>s e. runCommandSilent_on e s) s es) = promise s"
proof (induction es arbitrary: s)
  case Nil
  show ?case by simp
next
  case (Cons e es)
  have "promise (runCommandSilent_on e s) = promise s"
    using Cons.prems by (cases e) (auto simp: resolve_promise_settled)
  with Cons show ?case by simp
qed

lemma hasErrored_fold:
  "hasErrored s \<or> (\<exists>m. ErrorEvent m \<in> set es) \<Longrightarrow>
   hasErrored (foldl (\<lambda>s e. runCommand_on e s) s es)"
proof (induction es arbitrary: s)
  case Nil
  then show ?case by simp
next
  case (Cons e es)
  have "hasErrored (runCommand_on e s) \<or> (\<exists>m. ErrorEvent m \<in> set es)"
    using Cons.prems by (cases e) (auto simp: resolve_promise_simps)
  from Cons.IH [OF this] show ?case by simp
qed

lemma hasErrored_fold_silent:
  "hasErrored s \<or> (\<exists>m. ErrorEvent m \<in> set es) \<Longrightarrow>
   hasErrored (foldl (\<lambda>s e. runCommandSilent_on e s) s es)"
proof (induction es arbitrary: s)
  case Nil
  then show ?case by simp
next
  case (Cons e es)
  have "hasErrored (runCommandSilent_on e s) \<or> (\<exists>m. ErrorEvent m \<in> set es)"
    using Cons.prems by (cases e) (auto simp: resolve_promise_simps)
  from Cons.IH [OF this] show ?case by simp
qed

lemma runCommand_promise:
  "cmd \<noteq> [] \<Longrightarrow> promise (runCommand (cmd # args) (Spawned events)) = first_settle events"
  by (simp add: runCommand_def runCommand_fold initial_state_def)

lemma runCommandSilent_promise:
  "cmd \<noteq> [] \<Longrightarrow>
   promise (runCommandSilent (cmd # args) (Spawned events)) = first_settle_silent [] [] events"
  by (simp add: runCommandSilent_def runCommandSilent_fold initial_state_def)

lemma runCommand_later:
  "cmd \<noteq> [] \<Longrightarrow> first_settle events \<noteq> Pending \<Longrightarrow>
   promise (runCommand (cmd # args) (Spawned (events @ later))) =
   promise (runCommand (cmd # args) (Spawned events))"
proof -
  assume c: "cmd \<noteq> []" and s: "first_settle events \<noteq> Pending"
  have "promise (foldl (\<lambda>s e. runCommand_on e s) initial_state events) \<noteq> Pending"
    using runCommand_promise [OF c, of args events] s c by (simp add: runCommand_def)
  then show ?thesis using c by (simp add: runCommand_def settled_stays)
qed

lemma runCommandSilent_later:
  "cmd \<noteq> [] \<Longrightarrow> first_settle events \<noteq> Pending \<Longrightarrow>
   promise (runCommandSilent (cmd # args) (Spawned (events @ later))) =
   promise (runCommandSilent (cmd # args) (Spawned events))"
proof -
  assume c: "cmd \<noteq> []" and s: "first_settle events \<noteq> Pending"
  have "map_promise_state success (promise (runCommandSilent (cmd # args) (Spawned events))) \<noteq> Pending"
    using s c by (simp add: runCommandSilent_promise first_settle_silent_success)
  then have "promise (runCommandSilent (cmd # args) (Spawned events)) \<noteq> Pending"
    by (cases "promise (runCommandSilent (cmd # args) (Spawned events))") auto
  then have "promise (foldl (\<lambda>s e. runCommandSilent_on e s) initial_state events) \<noteq> Pending"
    using c by (simp add: runCommandSilent_def)
  then show ?thesis using c by (simp add: runCommandSilent_def settled_stays_silent)
qed

text \<open>
  Claim C10, as stated, at the empty command list: the executor resolves the promise
  with failure at once, before any process exists, so the promise is settled although
  neither an error nor a close event has occurred.
\<close>

theorem runCommand_empty_command_counterexample:
  "promise (runCommand [] (Spawned [])) \<noteq> first_settle [] \<and>
   promise (runCommand [] (Spawned [])) = Resolved False \<and>
   map_promise_state success (promise (runCommandSilent [] (Spawned []))) \<noteq> first_settle [] \<and>
   map_promise_state success (promise (runCommandSilent [] (Spawned []))) = Resolved False"
  by (simp add: runCommand_def runCommandSilent_def resolve_promise_def initial_state_def)

text \<open>
  Claim C10, amended. For a command list whose first element is a non-empty string
  and whose spawn returns a child process, the promise of \<^const>\<open>runCommand\<close> and of
  \<^const>\<open>runCommandSilent\<close> is settled by the first error or close event and by nothing
  else: with failure on an error, with success exactly when the exit code is 0 on a
  close. Once settled it keeps its whole value whatever events follow, and a close
  event after an error changes nothing at all. When the spawn throws instead, the
  promise is rejected. For an empty command list, or an empty first element, the
  promise is resolved with failure at once, whatever the spawn would do.
\<close>

theorem runCommand_settles_once:
  "(cmd \<noteq> [] \<longrightarrow>
      promise (runCommand (cmd # args) (Spawned events)) = first_settle events \<and>
      promise (runCommandSilent (cmd # args) (Spawned events)) = first_settle_silent [] [] events \<and>
      map_promise_state success (promise (runCommandSilent (cmd # args) (Spawned events))) =
        first_settle events \<and>
      (first_settle events \<noteq> Pending \<longrightarrow>
         promise (runCommand (cmd # args) (Spawned (events @ later))) =
           promise (runCommand (cmd # args) (Spawned events)) \<and>
         promise (runCommandSilent (cmd # args) (Spawned (events @ later))) =
           promise (runCommandSilent (cmd # args) (Spawned events))) \<and>
      ((\<exists>m. ErrorEvent m \<in> set events) \<longrightarrow>
         runCommand (cmd # args) (Spawned (events @ [CloseEvent code])) =
           runCommand (cmd # args) (Spawned events) \<and>
         runCommandSilent (cmd # args) (Spawned (events @ [CloseEvent code])) =
           runCommandSilent (cmd # args) (Spawned events)) \<and>
      promise (runCommand (cmd # args) (SpawnThrows reason)) = Rejected reason \<and>
      promise (runCommandSilent (cmd # args) (SpawnThrows reason)) = Rejected reason)
   \<and> promise (runCommand [] spawn) = Resolved False
   \<and> promise (runCommand ([] # args) spawn) = Resolved False
   \<and> promise (runCommandSilent [] spawn) =
       Resolved \<lparr>success = False, out = [], err = ''No command specified''\<rparr>
   \<and> promise (runCommandSilent ([] # args) spawn) =
       Resolved \<lparr>success = False, out = [], err = ''No command specified''\<rparr>"
proof (intro conjI impI)
  assume c: "cmd \<noteq> []"
  show "promise (runCommand (cmd # args) (Spawned events)) = first_settle events"
    using c by (rule runCommand_promise)
  show "promise (runCommandSilent (cmd # args) (Spawned events)) = first_settle_silent [] [] events"
    using c by (rule runCommandSilent_promise)
  show "map_promise_state success (promise (runCommandSilent (cmd # args) (Spawned events))) =
        first_settle events"
    using c by (simp add: runCommandSilent_promise first_settle_silent_success)
  show "promise (runCommand (cmd # args) (SpawnThrows reason)) = Rejected reason"
    using c by (simp add: runCommand_def reject_promise_def initial_state_def)
  show "promise (runCommandSilent (cmd # args) (SpawnThrows reason)) = Rejected reason"
    using c by (simp add: runCommandSilent_def reject_promise_def initial_state_def)
next
  assume c: "cmd \<noteq> []" and s: "first_settle events \<noteq> Pending"
  show "promise (runCommand (cmd # args) (Spawned (events @ later))) =
        promise (runCommand (cmd # args) (Spawned events))"
    using c s by (rule runCommand_later)
  show "promise (runCommandSilent (cmd # args) (Spawned (events @ later))) =
        promise (runCommandSilent (cmd # args) (Spawned events))"
    using c s by (rule runCommandSilent_later)
next
  assume c: "cmd \<noteq> []" and e: "\<exists>m. ErrorEvent m \<in> set events"
  show "runCommand (cmd # args) (Spawned (events @ [CloseEvent code])) =
        runCommand (cmd # args) (Spawned events)"
    using c hasErrored_fold [of initial_state events] e by (simp add: runCommand_def)
  show "runCommandSilent (cmd # args) (Spawned (events @ [CloseEvent code])) =
        runCommandSilent (cmd # args) (Spawned events)"
    using c hasErrored_fold_silent [of initial_state events] e by (simp add: runCommandSilent_def)
next
  show "promise (runCommand [] spawn) = Resolved False"
    by (simp add: runCommand_def resolve_promise_def initial_state_def)
  show "promise (runCommand ([] # args) spawn) = Resolved False"
    by (simp add: runCommand_def resolve_promise_def initial_state_def)
  show "promise (runCommandSilent [] spawn) =
       Resolved \<lparr>success = False, out = [], err = ''No command specified''\<rparr>"
    by (simp add: runCommandSilent_def resolve_promise_def initial_state_def)
  show "promise (runCommandSilent ([] # args) spawn) =
       Resolved \<lparr>success = False, out = [], err = ''No command specified''\<rparr>"
    by (simp add: runCommandSilent_def resolve_promise_def initial_state_def)
qed

theorem runCommand_settles_once_witness:
  "''npm'' \<noteq> [] \<and>
   first_settle [StdoutData ''x '', ErrorEvent ''ENOENT''] \<noteq> Pending \<and>
   (\<exists>m. ErrorEvent m \<in> set [StdoutData ''x '', ErrorEvent ''ENOENT'']) \<and>
   promise (runCommand [''npm'', ''i''] (Spawned [StdoutData ''x '', ErrorEvent ''ENOENT''])) =
     Resolved False \<and>
   promise (runCommandSilent [''npm'', ''i'']
      (Spawned ([StdoutData ''x '', ErrorEvent ''ENOENT''] @ [CloseEvent (Some 0)]))) =
     Resolved \<lparr>success = False, out = ''x'', err = ''ENOENT''\<rparr> \<and>
   runCommand [''npm'', ''i'']
      (Spawned ([StdoutData ''x '', ErrorEvent ''ENOENT''] @ [CloseEvent (Some 0)])) =
     runCommand [''npm'', ''i''] (Spawned [StdoutData ''x '', ErrorEvent ''ENOENT'']) \<and>
   promise (runCommand [''npm'', ''i''] (SpawnThrows ''ERR_INVALID_ARG_VALUE'')) =
     Rejected ''ERR_INVALID_ARG_VALUE''"
proof -
  have c: "''npm'' \<noteq> []" by simp
  have s: "first_settle [StdoutData ''x '', ErrorEvent ''ENOENT''] \<noteq> Pending" by simp
  have e: "\<exists>m. ErrorEvent m \<in> set [StdoutData ''x '', ErrorEvent ''ENOENT'']" by simp
  have v: "first_settle [StdoutData ''x '', ErrorEvent ''ENOENT''] = Resolved False" by simp
  have w: "first_settle_silent [] [] [StdoutData ''x '', ErrorEvent ''ENOENT''] =
      Resolved \<lparr>success = False, out = ''x'', err = ''ENOENT''\<rparr>"
    by (simp add: trim_def is_whitespace_def)
  show ?thesis
    using c s e v w
      runCommand_settles_once [of "''npm''" "[''i'']" "[StdoutData ''x '', ErrorEvent ''ENOENT'']"
        "[CloseEvent (Some 0)]" "Some 0" "''ERR_INVALID_ARG_VALUE''"]
    by simp
qed

section \<open>The shape of the written configuration\<close>

lemma member_of_server_entry:
  "member_of (server_entry server) ''extensions'' = Some (JArray (map JString (extensions server)))"
  "member_of (server_entry server) ''command'' = Some (JArray (map JString (command server)))"
  "member_of (server_entry server) ''rootDir'' = Some (JString ''.'')"
  "member_of (server_entry server) ''restartInterval'' = map_option JNumber (restartInterval server)"
  by (simp_all add: server_entry_def split: option.splits)

text \<open>
  Claim C2. For every table of servers and every selection of languages, the
  configuration that the setup flow serializes is an object with the single key
  \<^verbatim>\<open>servers\<close>, holding one entry per selected server in the order of the table;
  each entry has the extensions and the command of its server and \<^verbatim>\<open>rootDir\<close>, and
  has \<^verbatim>\<open>restartInterval\<close> exactly when its server defines one. Unless creating the
  directory or writing the file throws, which ends the process with code 1, the
  file at the chosen path then holds the serialization of that object and no other
  file has changed.
\<close>

theorem written_config_shape:
  "\<exists>entries.
     write_config stringify dirnameOf mkdirThrows writeThrows LANGUAGE_SERVERS selectedLanguages
         configPath fs =
       (if mkdirThrows (dirnameOf configPath) \<or> writeThrows configPath then Exited 1
        else Written (fs(configPath \<mapsto> stringify (JObject [(''servers'', JArray entries)])))) \<and>
     generateConfig LANGUAGE_SERVERS selectedLanguages = JObject [(''servers'', JArray entries)] \<and>
     length entries =
       length (filter (\<lambda>server. name server \<in> set selectedLanguages) LANGUAGE_SERVERS) \<and>
     (\<forall>i < length entries.
        member_of (entries ! i) ''extensions'' =
          Some (JArray (map JString (extensions
            (filter (\<lambda>server. name server \<in> set selectedLanguages) LANGUAGE_SERVERS ! i)))) \<and>
        member_of (entries ! i) ''command'' =
          Some (JArray (map JString (command
            (filter (\<lambda>server. name server \<in> set selectedLanguages) LANGUAGE_SERVERS ! i)))) \<and>
        member_of (entries ! i) ''rootDir'' = Some (JString ''.'') \<and>
        member_of (entries ! i) ''restartInterval'' =
          map_option JNumber (restartInterval
            (filter (\<lambda>server. name server \<in> set selectedLanguages) LANGUAGE_SERVERS ! i)))"
proof -
  define servers where
    "servers = filter (\<lambda>server. name server \<in> set selectedLanguages) LANGUAGE_SERVERS"
  define entries where "entries = map server_entry servers"
  have cfg: "generateConfig LANGUAGE_SERVERS selectedLanguages = JObject [(''servers'', JArray entries)]"
    by (simp add: generateConfig_def entries_def servers_def)
  have wr: "write_config stringify dirnameOf mkdirThrows writeThrows LANGUAGE_SERVERS
         selectedLanguages configPath fs =
       (if mkdirThrows (dirnameOf configPath) \<or> writeThrows configPath then Exited 1
        else Written (fs(configPath \<mapsto> stringify (JObject [(''servers'', JArray entries)]))))"
    by (simp add: write_config_def cfg Let_def)
  have len: "length entries = length servers"
    by (simp add: entries_def)
  have each: "\<forall>i < length entries.
        member_of (entries ! i) ''extensions'' = Some (JArray (map JString (extensions (servers ! i)))) \<and>
        member_of (entries ! i) ''command'' = Some (JArray (map JString (command (servers ! i)))) \<and>
        member_of (entries ! i) ''rootDir'' = Some (JString ''.'') \<and>
        member_of (entries ! i) ''restartInterval'' = map_option JNumber (restartInterval (servers ! i))"
    by (simp add: entries_def member_of_server_entry)
  show ?thesis
    using cfg wr len each unfolding servers_def by blast
qed

theorem written_config_shape_witness:
  "generateConfig example_servers [''nonexistent'', ''python''] =
     JObject [(''servers'', JArray [JObject
       [(''extensions'', JArray [JString ''py'', JString ''pyi'']),
        (''command'', JArray [JString ''pylsp'']),
        (''rootDir'', JString ''.''),
        (''restartInterval'', JNumber 5)]])] \<and>
   (\<exists>entries.
     write_config (\<lambda>j. ''{}'') (\<lambda>path. ''/p'') (\<lambda>path. False) (\<lambda>path. False) example_servers
         [''nonexistent'', ''python''] ''/p/cclsp.json'' Map.empty =
       Written [''/p/cclsp.json'' \<mapsto> (\<lambda>j. ''{}'') (JObject [(''servers'', JArray entries)])] \<and>
     generateConfig example_servers [''nonexistent'', ''python''] =
       JObject [(''servers'', JArray entries)] \<and>
     length entries = 1 \<and>
     member_of (entries ! 0) ''restartInterval'' = Some (JNumber 5) \<and>
     member_of (entries ! 0) ''rootDir'' = Some (JString ''.''))"
proof -
  have f: "filter (\<lambda>server. name server \<in> set [''nonexistent'', ''python'']) example_servers =
      [example_servers ! 1]"
    by (simp add: example_servers_def)
  have v: "generateConfig example_servers [''nonexistent'', ''python''] =
     JObject [(''servers'', JArray [JObject
       [(''extensions'', JArray [JString ''py'', JString ''pyi'']),
        (''command'', JArray [JString ''pylsp'']),
        (''rootDir'', JString ''.''),
        (''restartInterval'', JNumber 5)]])]"
    by (simp add: generateConfig_def server_entry_def example_servers_def)
  from written_config_shape [of "\<lambda>j. ''{}''" "\<lambda>path. ''/p''" "\<lambda>path. False" "\<lambda>path. False"
      example_servers "[''nonexistent'', ''python'']" "''/p/cclsp.json''" Map.empty]
  obtain entries where e:
    "write_config (\<lambda>j. ''{}'') (\<lambda>path. ''/p'') (\<lambda>path. False) (\<lambda>path. False) example_servers
         [''nonexistent'', ''python''] ''/p/cclsp.json'' Map.empty =
       Written [''/p/cclsp.json'' \<mapsto> (\<lambda>j. ''{}'') (JObject [(''servers'', JArray entries)])]"
    "generateConfig example_servers [''nonexistent'', ''python''] = JObject [(''servers'', JArray entries)]"
    "length entries = 1"
    "\<forall>i < length entries.
        member_of (entries ! i) ''rootDir'' = Some (JString ''.'') \<and>
        member_of (entries ! i) ''restartInterval'' =
          map_option JNumber (restartInterval ([example_servers ! 1] ! i))"
    unfolding f by auto
  from e(3,4) have "member_of (entries ! 0) ''restartInterval'' = Some (JNumber 5)"
    "member_of (entries ! 0) ''rootDir'' = Some (JString ''.'')"
    by (simp_all add: example_servers_def)
  with v e(1,2,3) show ?thesis by blast
qed

section \<open>Backups precede overwrites\<close>

lemma suffix_neq: "path @ backup_suffix \<noteq> path"
  by (simp add: backup_suffix_def)

lemma well_planned:
  "p \<in> set (compute_plans rewrite fs0 workspaceEdit) \<Longrightarrow> backupPath p = filePath p @ backup_suffix"
  by (auto simp: compute_plans_def Let_def)

lemma apply_plans_guarded:
  "\<forall>p \<in> set plans. backupPath p = filePath p @ backup_suffix \<Longrightarrow>
   guarded fs saved (ops (apply_plans can_write fs plans))"
proof (induction plans arbitrary: fs saved)
  case Nil
  then show ?case by simp
next
  case (Cons p ps)
  have b: "backupPath p = filePath p @ backup_suffix" using Cons.prems by simp
  have rest: "\<forall>q \<in> set ps. backupPath q = filePath q @ backup_suffix" using Cons.prems by simp
  show ?case
    using Cons.IH [OF rest] b suffix_neq [of "filePath p"]
    by (simp add: Let_def)
qed

lemma replay_Cons: "replay (operation # rest) fs = replay rest (perform operation fs)"
  by (simp add: replay_def)

lemma guarded_index:
  "guarded fs saved operations \<Longrightarrow> j < length operations \<Longrightarrow>
   operations ! j = WriteContent path content \<Longrightarrow>
   (path \<in> set saved \<or> (\<exists>i < j. \<exists>c. operations ! i = WriteBackup path (path @ backup_suffix) c)) \<and>
   replay (take j operations) fs (path @ backup_suffix) = replay (take j operations) fs path \<and>
   replay (take j operations) fs path \<noteq> None"
proof (induction operations arbitrary: fs saved j)
  case Nil
  then show ?case by simp
next
  case (Cons operation rest)
  show ?case
  proof (cases j)
    case 0
    with Cons.prems show ?thesis by (simp add: replay_def)
  next
    case (Suc k)
    have k: "k < length rest" "rest ! k = WriteContent path content"
      using Cons.prems Suc by simp_all
    show ?thesis
    proof (cases operation)
      case (ReadContent p)
      then have g: "guarded fs saved rest" using Cons.prems by simp
      from Cons.IH [OF g k] show ?thesis
        using Suc ReadContent by (auto simp: replay_Cons)
    next
      case (WriteBackup p backup c0)
      with Cons.prems(1) have b: "backup = p @ backup_suffix"
        and g: "guarded (fs(backup \<mapsto> c0)) (p # saved) rest"
        by auto
      note ih = Cons.IH [OF g k]
      have first: "path \<in> set saved \<or>
          (\<exists>i < j. \<exists>c. (operation # rest) ! i = WriteBackup path (path @ backup_suffix) c)"
      proof -
        from ih consider "path = p" | "path \<in> set saved"
          | "\<exists>i < k. \<exists>c. rest ! i = WriteBackup path (path @ backup_suffix) c"
          by auto
        then show ?thesis
        proof cases
          case 1
          then have "0 < j \<and> (operation # rest) ! 0 = WriteBackup path (path @ backup_suffix) c0"
            using Suc b WriteBackup by simp
          then show ?thesis by blast
        next
          case 2
          then show ?thesis by simp
        next
          case 3
          then obtain i c where "i < k" "rest ! i = WriteBackup path (path @ backup_suffix) c"
            by blast
          then have "Suc i < j \<and> (operation # rest) ! Suc i = WriteBackup path (path @ backup_suffix) c"
            using Suc by simp
          then show ?thesis by blast
        qed
      qed
      have r: "replay (take j (operation # rest)) fs = replay (take k rest) (fs(backup \<mapsto> c0))"
        using Suc WriteBackup by (simp add: replay_Cons)
      show ?thesis
        unfolding r using first ih by blast
    next
      case (WriteContent p c0)
      then have g: "guarded (fs(p \<mapsto> c0)) saved rest" using Cons.prems by simp
      have r: "replay (take j (operation # rest)) fs = replay (take k rest) (fs(p \<mapsto> c0))"
        using Suc WriteContent by (simp add: replay_Cons)
      have "\<And>i c. i < k \<Longrightarrow> rest ! i = WriteBackup path (path @ backup_suffix) c \<Longrightarrow>
          Suc i < j \<and> (operation # rest) ! Suc i = WriteBackup path (path @ backup_suffix) c"
        using Suc by simp
      then show ?thesis
        unfolding r using Cons.IH [OF g k] by blast
    qed
  qed
qed

lemma dirname_backup: "dirname (path @ backup_suffix) = dirname path"
  by (simp add: dirname_def backup_suffix_def)

text \<open>
  Claim C5. In every execution of apply, whatever the edit, the file systems and the
  paths that can be written: each overwrite of a file with its new content comes
  after the write of that file's backup, whose path is the file's path plus the fixed
  suffix and lies in the same directory; at the moment of the overwrite the backup
  exists and holds the content that is about to be replaced.
\<close>

theorem backup_before_overwrite:
  "\<forall>j < length (ops (renameApply rewrite can_write fs_planned fs workspaceEdit)).
     \<forall>path content.
       ops (renameApply rewrite can_write fs_planned fs workspaceEdit) ! j = WriteContent path content \<longrightarrow>
         (\<exists>i < j. \<exists>saved.
            ops (renameApply rewrite can_write fs_planned fs workspaceEdit) ! i =
              WriteBackup path (path @ backup_suffix) saved) \<and>
         replay (take j (ops (renameApply rewrite can_write fs_planned fs workspaceEdit))) fs
             (path @ backup_suffix) =
           replay (take j (ops (renameApply rewrite can_write fs_planned fs workspaceEdit))) fs path \<and>
         replay (take j (ops (renameApply rewrite can_write fs_planned fs workspaceEdit))) fs path \<noteq> None \<and>
         dirname (path @ backup_suffix) = dirname path"
proof (intro allI impI)
  fix j path content
  let ?ops = "ops (renameApply rewrite can_write fs_planned fs workspaceEdit)"
  assume j: "j < length ?ops" and w: "?ops ! j = WriteContent path content"
  have "guarded fs [] ?ops"
    unfolding renameApply_def by (rule apply_plans_guarded) (simp add: well_planned)
  from guarded_index [OF this j w] show
    "(\<exists>i < j. \<exists>saved. ?ops ! i = WriteBackup path (path @ backup_suffix) saved) \<and>
     replay (take j ?ops) fs (path @ backup_suffix) = replay (take j ?ops) fs path \<and>
     replay (take j ?ops) fs path \<noteq> None \<and>
     dirname (path @ backup_suffix) = dirname path"
    by (simp add: dirname_backup)
qed

theorem backup_before_overwrite_witness:
  "ops (renameApply (\<lambda>content. concat) (\<lambda>path. True) example_fs example_fs example_edit) =
     [ReadContent ''src/a.ts'',
      WriteBackup ''src/a.ts'' ''src/a.ts.bak'' ''data'',
      WriteContent ''src/a.ts'' ''value'',
      ReadContent ''src/b.ts'',
      WriteBackup ''src/b.ts'' ''src/b.ts.bak'' ''use data'',
      WriteContent ''src/b.ts'' ''use value''] \<and>
   (\<exists>i < 5. \<exists>saved.
      ops (renameApply (\<lambda>content. concat) (\<lambda>path. True) example_fs example_fs example_edit) ! i =
        WriteBackup ''src/b.ts'' (''src/b.ts'' @ backup_suffix) saved) \<and>
   replay (take 5 (ops (renameApply (\<lambda>content. concat) (\<lambda>path. True) example_fs example_fs
       example_edit))) example_fs (''src/b.ts'' @ backup_suffix) = Some ''use data'' \<and>
   dirname (''src/b.ts'' @ backup_suffix) = ''src/''"
proof -
  let ?ops = "ops (renameApply (\<lambda>content. concat) (\<lambda>path. True) example_fs example_fs example_edit)"
  have e: "?ops =
     [ReadContent ''src/a.ts'',
      WriteBackup ''src/a.ts'' ''src/a.ts.bak'' ''data'',
      WriteContent ''src/a.ts'' ''value'',
      ReadContent ''src/b.ts'',
      WriteBackup ''src/b.ts'' ''src/b.ts.bak'' ''use data'',
      WriteContent ''src/b.ts'' ''use value'']"
    by (simp add: renameApply_def compute_plans_def backup_suffix_def example_fs_def
        example_edit_def Let_def)
  have j: "5 < length ?ops" and w: "?ops ! 5 = WriteContent ''src/b.ts'' ''use value''"
    unfolding e by simp_all
  from backup_before_overwrite
    [of "\<lambda>content. concat" "\<lambda>path. True" example_fs example_fs example_edit] j w
  have t: "(\<exists>i < 5. \<exists>saved. ?ops ! i = WriteBackup ''src/b.ts'' (''src/b.ts'' @ backup_suffix) saved) \<and>
     replay (take 5 ?ops) example_fs (''src/b.ts'' @ backup_suffix) =
       replay (take 5 ?ops) example_fs ''src/b.ts'' \<and>
     dirname (''src/b.ts'' @ backup_suffix) = dirname ''src/b.ts''"
    by blast
  have r: "replay (take 5 ?ops) example_fs ''src/b.ts'' = Some ''use data''"
    unfolding e by (simp add: replay_def example_fs_def)
  have d: "dirname ''src/b.ts'' = ''src/''"
    by (simp add: dirname_def)
  show ?thesis
    using e t r d by simp
qed

section \<open>Decoding inverts encoding, whatever the chunks\<close>

lemma digit_char_props:
  "d < 10 \<Longrightarrow> is_digit (digit_char d)"
  "d < 10 \<Longrightarrow> digit_value (digit_char d) = d"
  by (simp_all add: is_digit_def digit_value_def digit_char_def)

lemma show_nat_digits: "list_all is_digit (show_nat n)"
proof (induction n rule: show_nat.induct)
  case (1 n)
  show ?case
  proof (cases "n < 10")
    case True
    then show ?thesis by (subst show_nat.simps) (simp add: digit_char_props)
  next
    case False
    then have "list_all is_digit (show_nat (n div 10))" by (rule "1.IH")
    moreover have "is_digit (digit_char (n mod 10))" by (simp add: digit_char_props)
    ultimately show ?thesis using False by (subst show_nat.simps) simp
  qed
qed

lemma show_nat_nonempty: "show_nat n \<noteq> []"
  by (subst show_nat.simps) simp

lemma show_nat_value: "foldl (\<lambda>acc c. 10 * acc + digit_value c) 0 (show_nat n) = n"
proof (induction n rule: show_nat.induct)
  case (1 n)
  show ?case
  proof (cases "n < 10")
    case True
    then show ?thesis by (subst show_nat.simps) (simp add: digit_char_props)
  next
    case False
    then have "foldl (\<lambda>acc c. 10 * acc + digit_value c) 0 (show_nat (n div 10)) = n div 10"
      by (rule "1.IH")
    then show ?thesis using False
      by (subst show_nat.simps) (simp add: digit_char_props)
  qed
qed

lemma parse_show_nat: "parse_nat (show_nat n) = Some n"
  by (simp add: parse_nat_def show_nat_digits show_nat_nonempty show_nat_value)

lemma digit_not_CR: "is_digit c \<Longrightarrow> c \<noteq> CHR 0x0D"
  by (auto simp: is_digit_def)

lemma show_nat_no_CR: "CHR 0x0D \<notin> set (show_nat n)"
  using show_nat_digits [of n] digit_not_CR by (auto simp: list_all_iff)

lemma split_header_found:
  "CHR 0x0D \<notin> set h \<Longrightarrow> split_header (h @ header_end @ rest) = Some (h, rest)"
proof (induction h)
  case Nil
  show ?case by (simp add: header_end_def startsWith_def)
next
  case (Cons c h)
  then have "c \<noteq> CHR 0x0D" and ih: "split_header (h @ header_end @ rest) = Some (h, rest)"
    by auto
  then show ?case by (simp add: startsWith_def header_end_def)
qed

lemma split_header_short: "length q < 4 \<Longrightarrow> split_header q = None"
proof (induction q)
  case Nil
  show ?case by simp
next
  case (Cons c q)
  then have "split_header q = None" by simp
  moreover have "\<not> startsWith (c # q) header_end"
    using Cons.prems by (auto simp: startsWith_def header_end_def)
  ultimately show ?case by simp
qed

lemma split_header_pending:
  "CHR 0x0D \<notin> set h \<Longrightarrow> strict_prefix q (h @ header_end) \<Longrightarrow> split_header q = None"
proof (induction h arbitrary: q)
  case Nil
  then have "length q < 4"
    by (auto simp: header_end_def dest: prefix_length_less)
  then show ?case by (simp add: split_header_short)
next
  case (Cons c h)
  show ?case
  proof (cases q)
    case Nil
    then show ?thesis by simp
  next
    case (Cons d q')
    with Cons.prems have d: "d = c" and q': "strict_prefix q' (h @ header_end)"
      by (auto simp: strict_prefix_def)
    have "c \<noteq> CHR 0x0D" and "CHR 0x0D \<notin> set h" using Cons.prems by auto
    then have "split_header q' = None" and "\<not> startsWith (c # q') header_end"
      using Cons.IH q' by (auto simp: startsWith_def header_end_def)
    then show ?thesis using Cons d by simp
  qed
qed


lemma encode_frame_header: "encode payload = frame_header payload @ header_end @ payload"
  by (simp add: encode_def)

lemma frame_header_no_CR: "CHR 0x0D \<notin> set (frame_header payload)"
  by (simp add: frame_header_def show_nat_no_CR)

lemma parse_frame_header: "parse_header (frame_header payload) = Inr (length payload)"
  by (simp add: parse_header_def frame_header_def startsWith_def parse_show_nat)

lemma extract_frames_encode:
  "extract_frames (encode payload @ rest) =
     (case extract_frames rest of
        Inl e \<Rightarrow> Inl e
      | Inr (payloads, remaining) \<Rightarrow> Inr (payload # payloads, remaining))"
  by (subst extract_frames.simps)
     (simp add: encode_frame_header split_header_found frame_header_no_CR parse_frame_header
        split: sum.splits prod.splits)

lemma extract_frames_pending:
  assumes "strict_prefix p (encode payload)"
  shows "extract_frames p = Inr ([], p)"
proof (cases "strict_prefix p (frame_header payload @ header_end)")
  case True
  then have "split_header p = None"
    by (rule split_header_pending [OF frame_header_no_CR])
  then show ?thesis by (subst extract_frames.simps) simp
next
  case False
  from assms have "prefix p ((frame_header payload @ header_end) @ payload)" and ne: "p \<noteq> encode payload"
    by (simp_all add: encode_frame_header strict_prefix_def)
  then obtain us where us: "p = (frame_header payload @ header_end) @ us" "prefix us payload"
    using False by (auto simp: prefix_append strict_prefix_def)
  with ne have "us \<noteq> payload" by (auto simp: encode_frame_header)
  with us(2) have "length us < length payload"
    by (metis prefix_length_less strict_prefix_def)
  then show ?thesis
    by (subst extract_frames.simps)
       (simp add: us(1) split_header_found frame_header_no_CR parse_frame_header)
qed

lemma encode_nonempty: "encode payload \<noteq> []"
  by (simp add: encode_def frame_header_def)

lemma empty_pending: "strict_prefix [] (encode payload)"
  by (auto simp: strict_prefix_def encode_def frame_header_def)

lemma extract_frames_stream:
  "strict_prefix p (encode pending) \<Longrightarrow>
   extract_frames (concat (map encode payloads) @ p) = Inr (payloads, p)"
proof (induction payloads)
  case Nil
  then show ?case by (simp add: extract_frames_pending)
next
  case (Cons payload payloads)
  then show ?case by (simp add: extract_frames_encode)
qed

lemma prefix_of_stream:
  "prefix x (concat (map encode payloads)) \<Longrightarrow>
   \<exists>complete rest p pending.
     payloads = complete @ rest \<and> x = concat (map encode complete) @ p \<and>
     strict_prefix p (encode pending)"
proof (induction payloads arbitrary: x)
  case Nil
  then have "x = []" by simp
  moreover have "strict_prefix [] (encode [])" by (rule empty_pending)
  ultimately show ?case by fastforce
next
  case (Cons payload payloads)
  from Cons.prems have "prefix x (encode payload @ concat (map encode payloads))" by simp
  then consider "prefix x (encode payload)"
    | us where "x = encode payload @ us" "prefix us (concat (map encode payloads))"
    by (auto simp: prefix_append)
  then show ?case
  proof cases
    case 1
    show ?thesis
    proof (cases "x = encode payload")
      case True
      have "payload # payloads = [payload] @ payloads \<and> x = concat (map encode [payload]) @ [] \<and>
          strict_prefix [] (encode [])"
        using True by (simp add: empty_pending)
      then show ?thesis by blast
    next
      case False
      with 1 have "payload # payloads = [] @ (payload # payloads) \<and> x = concat (map encode []) @ x \<and>
          strict_prefix x (encode payload)"
        by (simp add: strict_prefix_def)
      then show ?thesis by blast
    qed
  next
    case 2
    from Cons.IH [OF 2(2)] obtain complete rest p pending where
      d: "payloads = complete @ rest" "us = concat (map encode complete) @ p"
         "strict_prefix p (encode pending)"
      by blast
    then have "payload # payloads = (payload # complete) @ rest \<and>
        x = concat (map encode (payload # complete)) @ p \<and> strict_prefix p (encode pending)"
      using 2(1) by simp
    then show ?thesis by blast
  qed
qed

lemma decode_chunks_stream:
  "strict_prefix buffer (encode pending) \<Longrightarrow>
   buffer @ concat chunks = concat (map encode payloads) \<Longrightarrow>
   decode_chunks buffer chunks = Inr (payloads, [])"
proof (induction chunks arbitrary: buffer pending payloads)
  case Nil
  then have b: "buffer = concat (map encode payloads) @ []" by simp
  have "extract_frames buffer = Inr ([], buffer)"
    using Nil.prems(1) by (rule extract_frames_pending)
  moreover have "extract_frames buffer = Inr (payloads, [])"
    by (subst b) (rule extract_frames_stream [OF empty_pending [of "[]"]])
  ultimately show ?case by simp
next
  case (Cons chunk chunks)
  have "prefix (buffer @ chunk) (concat (map encode payloads))"
    using Cons.prems(2) by (metis append.assoc concat.simps(2) prefixI)
  from prefix_of_stream [OF this] obtain complete rest p next_pending where
    d: "payloads = complete @ rest" "buffer @ chunk = concat (map encode complete) @ p"
       "strict_prefix p (encode next_pending)"
    by blast
  have e: "extract_frames (buffer @ chunk) = Inr (complete, p)"
    unfolding d(2) using d(3) by (rule extract_frames_stream)
  have "concat (map encode complete) @ p @ concat chunks =
        concat (map encode complete) @ concat (map encode rest)"
    using Cons.prems(2) d(1,2) by (metis append.assoc concat.simps(2) concat_append map_append)
  then have "p @ concat chunks = concat (map encode rest)" by simp
  from Cons.IH [OF d(3) this] have "decode_chunks p chunks = Inr (rest, [])" .
  then show ?case using e d(1) by simp
qed

text \<open>
  Claim C4. For all payloads and every way of cutting the bytes of their encodings,
  one after the other, into chunks, decoding the chunks yields exactly the payloads,
  in order, with no error and nothing left in the buffer. One message cut across
  several reads and several messages in one read are instances.
\<close>

theorem decode_encode_chunked:
  "concat chunks = concat (map encode payloads) \<Longrightarrow> decode_stream chunks = Inr payloads"
proof -
  assume c: "concat chunks = concat (map encode payloads)"
  have "strict_prefix [] (encode [])" by (rule empty_pending)
  moreover have "[] @ concat chunks = concat (map encode payloads)" using c by simp
  ultimately have "decode_chunks [] chunks = Inr (payloads, [])"
    by (rule decode_chunks_stream)
  then show ?thesis by (simp add: decode_stream_def)
qed

theorem decode_encode_chunked_witness:
  "concat [''Content-Len'', ''gth: 2'' @ header_end @ ''{'', ''}'' @ encode ''[1]'' @ encode []] =
     concat (map encode [''{}'', ''[1]'', []]) \<and>
   decode_stream [''Content-Len'', ''gth: 2'' @ header_end @ ''{'', ''}'' @ encode ''[1]'' @ encode []] =
     Inr [''{}'', ''[1]'', []]"
proof -
  have h: "concat [''Content-Len'', ''gth: 2'' @ header_end @ ''{'', ''}'' @ encode ''[1]'' @ encode []] =
     concat (map encode [''{}'', ''[1]'', []])"
    by code_simp
  show ?thesis
    using h decode_encode_chunked [OF h] by simp
qed

end
